theory Spec2Isabelle
  imports Main
begin

section \<open>Data model of \<open>scripts/syncStrats.ts\<close>\<close>

text \<open>
  \<open>IVault\<close>, \<open>IStratToHrvst\<close> and \<open>IChain\<close> are declared in \<open>../interfaces\<close>; the
  records below carry the fields the script reads and writes. The field \<open>id\<close> is prefixed,
  since \<open>id\<close> is the identity function of HOL, and the fields the two interfaces share
  are prefixed \<open>v_\<close> for a vault and \<open>s_\<close> for a strategy entry. \<open>lastHarvest\<close> is a
  whole number (a timestamp). An absent \<open>noOnChainHrvst\<close> is \<open>None\<close>.
\<close>

record vault =
  v_id :: string
  v_chain :: string
  v_earnContractAddress :: string
  v_earnedToken :: string
  v_strategy :: string
  v_status :: string
  v_lastHarvest :: int

record strat =
  s_id :: string
  s_chain :: string
  s_earnContractAddress :: string
  s_earnedToken :: string
  s_strategy :: string
  s_lastHarvest :: int
  noOnChainHrvst :: "bool option"

record chain =
  c_id :: string
  chainId :: int
  hasOnChainHarvesting :: bool

text \<open>JavaScript truthiness of the optional boolean: absent and \<open>false\<close> are falsy.\<close>

definition truthy :: "bool option \<Rightarrow> bool" where
  "truthy b = (b = Some True)"

subsection \<open>The hit log\<close>

datatype HitType = Added | Removed_inactive | Removed_decomissioned
  | On_chain_harvest_switch | Strategy_update

text \<open>The field \<open>type\<close> of a \<open>Hit\<close>: one tag, or an array of tags.\<close>

datatype hit_type = Single HitType | Several "HitType list"

text \<open>
  \<open>Hits.hits\<close> is a \<open>Record<string, Hit>\<close> that starts as \<open>{}\<close>: here the list of its
  own \<open>(id, type)\<close> pairs in the order in which the keys were created, each key at most
  once.
\<close>

type_synonym Hits = "(string \<times> hit_type) list"

fun Hits_merge :: "hit_type \<Rightarrow> HitType \<Rightarrow> hit_type" where
  "Hits_merge (Single t0) t = Several [t0, t]"
| "Hits_merge (Several ts) t = Several (ts @ [t])"

fun Hits_store :: "string \<Rightarrow> HitType \<Rightarrow> Hits \<Rightarrow> Hits" where
  "Hits_store i t [] = [(i, Single t)]"
| "Hits_store i t ((k, h) # hs) =
     (if k = i then (k, Hits_merge h t) # hs else (k, h) # Hits_store i t hs)"

text \<open>
  The read \<open>this.hits[id]\<close> of line 42 also finds what the object inherits: for an id
  that names a member of \<open>Object.prototype\<close> it returns that member, which is truthy,
  so line 44 is not reached and the tag is written onto the inherited member (lines 45
  to 48). \<open>Hits.hits\<close> itself gets no key for such an id.
\<close>

definition Object_prototype :: "string list" where
  "Object_prototype =
     [''constructor'', ''__defineGetter__'', ''__defineSetter__'', ''hasOwnProperty'',
      ''__lookupGetter__'', ''__lookupSetter__'', ''isPrototypeOf'', ''propertyIsEnumerable'',
      ''toString'', ''valueOf'', ''__proto__'', ''toLocaleString'']"

definition Hits_add :: "string \<Rightarrow> HitType \<Rightarrow> Hits \<Rightarrow> Hits" where
  "Hits_add i t hs =
     (if i = [] then hs
      else if i \<in> set Object_prototype then hs
      else Hits_store i t hs)"

subsection \<open>The state one run works on\<close>

text \<open>
  \<open>stratsToHarvest\<close> is an array in which \<open>delete\<close> leaves holes: a list of optional
  entries, \<open>None\<close> the hole. \<open>stratsToHarvest\<close>, \<open>encountered\<close> and \<open>hits\<close> are
  shared by all chain managers; \<open>added\<close>, \<open>removed\<close> and \<open>notOnChainHarvest\<close> belong
  to one manager; \<open>dirty\<close> is the local variable of \<open>SyncVaults\<close> and \<open>main_dirty\<close> the
  one of \<open>main\<close>. \<open>notOnChainHarvest\<close> holds references to entry objects; an object
  never leaves the slot it was stored in, so a reference is the index of the slot.
\<close>

record sync =
  stratsToHarvest :: "strat option list"
  encountered :: "string set"
  hits :: Hits
  added :: nat
  removed :: nat
  notOnChainHarvest :: "nat list"
  dirty :: bool
  main_dirty :: bool

fun findIndex :: "('a \<Rightarrow> bool) \<Rightarrow> 'a list \<Rightarrow> nat option" where
  "findIndex P [] = None"
| "findIndex P (x # xs) = (if P x then Some 0 else map_option Suc (findIndex P xs))"

text \<open>The predicate of line 77: a hole matches no vault.\<close>

definition matches :: "vault \<Rightarrow> strat option \<Rightarrow> bool" where
  "matches v slot =
     (case slot of None \<Rightarrow> False
      | Some s \<Rightarrow> v_strategy v = s_strategy s \<and> v_id v = s_id s)"

definition inactive :: "vault \<Rightarrow> bool" where
  "inactive v = (v_status v \<in> set [''eol'', ''paused''])"

text \<open>
  The constructor loads the deny-list of the chain only when the chain has on-chain
  harvesting. The modules \<open>../gelato/<id>VaultDenyList.ts\<close> are a parameter: \<open>deny\<close>
  maps a chain id to its \<open>vaultDenyList\<close>.
\<close>

definition denyOnChainHarvest :: "(string \<Rightarrow> string set) \<Rightarrow> chain \<Rightarrow> string set option" where
  "denyOnChainHarvest deny c = (if hasOnChainHarvesting c then Some (deny (c_id c)) else None)"

definition ChainStratManager :: "sync \<Rightarrow> sync" where
  "ChainStratManager st = st\<lparr>added := 0, removed := 0, notOnChainHarvest := []\<rparr>"

section \<open>\<open>ChainStratManager.SyncVaults\<close>\<close>

text \<open>Line 103: \<open>onChainHarvest\<close>.\<close>

definition onChainHarvest :: "(string \<Rightarrow> string set) \<Rightarrow> chain \<Rightarrow> vault \<Rightarrow> bool" where
  "onChainHarvest deny c v =
     (hasOnChainHarvesting c \<and>
      \<not> (case denyOnChainHarvest deny c of None \<Rightarrow> False | Some D \<Rightarrow> v_earnedToken v \<in> D))"

text \<open>Line 106: the condition under which the flag is written.\<close>

definition switch_due :: "(string \<Rightarrow> string set) \<Rightarrow> chain \<Rightarrow> vault \<Rightarrow> strat \<Rightarrow> bool" where
  "switch_due deny c v s =
     (if onChainHarvest deny c v then truthy (noOnChainHrvst s)
      else hasOnChainHarvesting c \<and> \<not> truthy (noOnChainHrvst s))"

text \<open>
  Lines 103 to 132, for the entry \<open>s\<close> that lives in slot \<open>r\<close>; \<open>found\<close> is
  \<open>NOT_FOUND != index\<close>. The writes to the object are collected and stored back into
  its slot at the end.
\<close>

definition SyncVaults_routing ::
  "(string \<Rightarrow> string set) \<Rightarrow> chain \<Rightarrow> vault \<Rightarrow> nat \<Rightarrow> bool \<Rightarrow> strat \<Rightarrow> sync \<Rightarrow> sync" where
  "SyncVaults_routing deny c v r found s st =
     (let och = onChainHarvest deny c v;
          due = switch_due deny c v s;
          s1 = (if due then s\<lparr>noOnChainHrvst := Some (\<not> och)\<rparr> else s);
          st1 = (if due \<and> found
                 then st\<lparr>dirty := True, hits := Hits_add (v_id v) On_chain_harvest_switch (hits st)\<rparr>
                 else st);
          st2 = (if \<not> och then st1\<lparr>notOnChainHarvest := notOnChainHarvest st1 @ [r]\<rparr> else st1)
      in if \<not> found then st2\<lparr>stratsToHarvest := (stratsToHarvest st2)[r := Some s1]\<rparr>
         else
           let upd = (s_strategy s1 \<noteq> v_strategy v);
               s2 = (if upd then s1\<lparr>s_strategy := v_strategy v\<rparr> else s1);
               st3 = (if upd
                      then st2\<lparr>dirty := True, hits := Hits_add (v_id v) Strategy_update (hits st2)\<rparr>
                      else st2);
               later = (s_lastHarvest s2 < v_lastHarvest v);
               s3 = (if later then s2\<lparr>s_lastHarvest := v_lastHarvest v\<rparr> else s2);
               st4 = (if later then st3\<lparr>dirty := True\<rparr> else st3)
           in st4\<lparr>stratsToHarvest := (stratsToHarvest st4)[r := Some s3]\<rparr>)"

definition new_strat :: "vault \<Rightarrow> strat" where
  "new_strat v =
     \<lparr>s_id = v_id v, s_chain = v_chain v, s_earnContractAddress = v_earnContractAddress v,
      s_earnedToken = v_earnedToken v, s_strategy = v_strategy v,
      s_lastHarvest = v_lastHarvest v, noOnChainHrvst = None\<rparr>"

text \<open>
  The body of the \<open>forEach\<close> of lines 73 to 133. \<open>findIndex\<close> only returns a slot that
  holds an object, so the hole under a found index does not occur
  (lemma \<open>findIndex_matches\<close>).
\<close>

definition SyncVaults_vault ::
  "(string \<Rightarrow> string set) \<Rightarrow> chain \<Rightarrow> vault \<Rightarrow> sync \<Rightarrow> sync" where
  "SyncVaults_vault deny c v st =
     (if c_id c \<noteq> v_chain v then st
      else case findIndex (matches v) (stratsToHarvest st) of
        None \<Rightarrow>
          if inactive v then st
          else SyncVaults_routing deny c v (length (stratsToHarvest st)) False (new_strat v)
                 (st\<lparr>stratsToHarvest := stratsToHarvest st @ [Some (new_strat v)],
                     added := Suc (added st), dirty := True,
                     encountered := insert (v_id v) (encountered st),
                     hits := Hits_add (v_id v) Added (hits st)\<rparr>)
      | Some index \<Rightarrow>
          (case stratsToHarvest st ! index of
             None \<Rightarrow> st
           | Some s \<Rightarrow>
               if inactive v
               then st\<lparr>stratsToHarvest := (stratsToHarvest st)[index := None],
                       removed := Suc (removed st), dirty := True,
                       hits := Hits_add (v_id v) Removed_inactive (hits st)\<rparr>
               else SyncVaults_routing deny c v index True s
                      (st\<lparr>encountered := insert (v_id v) (encountered st)\<rparr>)))"

text \<open>\<open>SyncVaults\<close> returns \<open>dirty\<close>: the field \<open>dirty\<close> of the state it leaves.\<close>

definition SyncVaults ::
  "(string \<Rightarrow> string set) \<Rightarrow> chain \<Rightarrow> vault list \<Rightarrow> sync \<Rightarrow> sync" where
  "SyncVaults deny c vaults st = fold (SyncVaults_vault deny c) vaults (st\<lparr>dirty := False\<rparr>)"

section \<open>\<open>AddGasLimits\<close> and \<open>main\<close>\<close>

text \<open>
  Modelled from the spec: \<open>estimateGas\<close> of \<open>../utils/harvestHelpers\<close> is an opaque
  network call that succeeds or fails. \<open>est r n\<close> tells whether the promise for the
  entry referenced by \<open>r\<close> on the chain with number \<open>n\<close> is fulfilled.
  \<open>AddGasLimits\<close> is true when some promise is.
\<close>

definition AddGasLimits :: "(nat \<Rightarrow> int \<Rightarrow> bool) \<Rightarrow> chain \<Rightarrow> nat list \<Rightarrow> bool" where
  "AddGasLimits est c strats = (find (\<lambda>b. b) (map (\<lambda>r. est r (chainId c)) strats) \<noteq> None)"

text \<open>
  The callback of lines 190 to 208 for one chain. Each callback runs \<open>SyncVaults\<close>
  without suspending, so the passes of the chains follow one another in the order of
  \<open>Object.values\<close>.
\<close>

definition chain_task ::
  "(string \<Rightarrow> string set) \<Rightarrow> (nat \<Rightarrow> int \<Rightarrow> bool) \<Rightarrow> vault list \<Rightarrow> chain \<Rightarrow> sync \<Rightarrow> sync" where
  "chain_task deny est vaults c st =
     (let m = SyncVaults deny c vaults (ChainStratManager st);
          m1 = (if dirty m then m\<lparr>main_dirty := True\<rparr> else m)
      in if notOnChainHarvest m1 \<noteq> [] \<and> AddGasLimits est c (notOnChainHarvest m1)
         then m1\<lparr>main_dirty := True\<rparr> else m1)"

text \<open>Lines 210 to 216: \<open>forEach\<close> skips the holes; \<open>i\<close> is the index of the first slot of \<open>xs\<close>.\<close>

fun sweep :: "string set \<Rightarrow> strat option list \<Rightarrow> Hits \<Rightarrow> strat option list \<times> Hits" where
  "sweep enc [] hs = ([], hs)"
| "sweep enc (None # xs) hs = (let (ys, hs') = sweep enc xs hs in (None # ys, hs'))"
| "sweep enc (Some s # xs) hs =
     (if s_id s \<in> enc then (let (ys, hs') = sweep enc xs hs in (Some s # ys, hs'))
      else (let (ys, hs') = sweep enc xs (Hits_add (s_id s) Removed_decomissioned hs)
            in (None # ys, hs')))"

text \<open>What \<open>FETCH\<close> and \<open>require\<close> can do.\<close>

datatype fetched =
    Fetch_rejected
  | Response (ok: bool) (body: bool) (json: "vault list option")

datatype required =
    Required "strat list"
  | Require_throws "string option"

datatype aborted = Fetching_vaults_failed | Fetch_error | Require_error

definition initial :: "strat list \<Rightarrow> sync" where
  "initial strats =
     \<lparr>stratsToHarvest = map Some strats, encountered = {}, hits = [], added = 0, removed = 0,
      notOnChainHarvest = [], dirty = False, main_dirty = False\<rparr>"

text \<open>Lines 185 to 216, once the vaults and the stored list are there.\<close>

definition reconcile ::
  "(string \<Rightarrow> string set) \<Rightarrow> (nat \<Rightarrow> int \<Rightarrow> bool) \<Rightarrow> chain list \<Rightarrow> vault list \<Rightarrow> strat list \<Rightarrow> sync" where
  "reconcile deny est chs vaults strats =
     (let st = fold (chain_task deny est vaults) chs (initial strats);
          (ys, hs) = sweep (encountered st) (stratsToHarvest st) (hits st)
      in st\<lparr>stratsToHarvest := ys, hits := hs\<rparr>)"

text \<open>
  \<open>main\<close> up to the writes: \<open>Inl\<close> is a \<open>return\<close> of lines 159 to 183, \<open>Inr\<close> the state
  at line 218. \<open>json = None\<close> is a \<open>response.json()\<close> that rejects; the argument of
  \<open>Require_throws\<close> is the \<open>code\<close> of the error, \<open>None\<close> when it has none.
\<close>

definition main ::
  "(string \<Rightarrow> string set) \<Rightarrow> (nat \<Rightarrow> int \<Rightarrow> bool) \<Rightarrow> chain list \<Rightarrow> fetched \<Rightarrow> required
     \<Rightarrow> aborted + sync" where
  "main deny est chs f r =
     (case f of
        Fetch_rejected \<Rightarrow> Inl Fetch_error
      | Response is_ok has_body js \<Rightarrow>
          if \<not> (is_ok \<and> has_body) then Inl Fetching_vaults_failed
          else (case js of
            None \<Rightarrow> Inl Fetch_error
          | Some vaults \<Rightarrow>
              (case r of
                 Required strats \<Rightarrow> Inr (reconcile deny est chs vaults strats)
               | Require_throws code \<Rightarrow>
                   if code = Some ''MODULE_NOT_FOUND''
                   then Inr (reconcile deny est chs vaults [])
                   else Inl Require_error)))"

text \<open>
  \<open>Object.values\<close> of line 221 lists the keys that are array indices first, in
  ascending numeric order, and then the other keys in the order of their creation. An
  array index is the canonical decimal numeral of a whole number below \<open>2^32 - 1\<close>.
\<close>

definition digit :: "char \<Rightarrow> nat option" where
  "digit ch = findIndex (\<lambda>d. d = ch) ''0123456789''"

fun decimal :: "int \<Rightarrow> string \<Rightarrow> int option" where
  "decimal n [] = Some n"
| "decimal n (ch # cs) =
     (case digit ch of None \<Rightarrow> None | Some d \<Rightarrow> decimal (10 * n + int d) cs)"

definition array_index :: "string \<Rightarrow> int option" where
  "array_index k =
     (case k of
        [] \<Rightarrow> None
      | ch # cs \<Rightarrow>
          if ch = CHR ''0'' \<and> cs \<noteq> [] then None
          else (case decimal 0 k of
                  None \<Rightarrow> None
                | Some n \<Rightarrow> if n < 4294967295 then Some n else None))"

definition Object_values :: "Hits \<Rightarrow> Hits" where
  "Object_values hs =
     map snd (sort_key fst
       (List.map_filter (\<lambda>p. map_option (\<lambda>n. (n, p)) (array_index (fst p))) hs))
     @ filter (\<lambda>p. array_index (fst p) = None) hs"

text \<open>Lines 218 to 227: the content written to each file, \<open>None\<close> when it is not written.\<close>

definition stratsSync_json :: "aborted + sync \<Rightarrow> Hits option" where
  "stratsSync_json res =
     (case res of Inl _ \<Rightarrow> None
      | Inr st \<Rightarrow> if length (hits st) \<noteq> 0 then Some (Object_values (hits st)) else None)"

definition compact :: "strat option list \<Rightarrow> strat list" where
  "compact xs = map the (filter (\<lambda>x. x \<noteq> None) xs)"

definition stratsToHrvst_json :: "aborted + sync \<Rightarrow> strat list option" where
  "stratsToHrvst_json res =
     (case res of Inl _ \<Rightarrow> None
      | Inr st \<Rightarrow> if main_dirty st then Some (compact (stratsToHarvest st)) else None)"

text \<open>
  The file \<open>data/stratsToHrvst.json\<close> between runs: \<open>None\<close> when it does not exist.
  \<open>require_file\<close> is what \<open>require\<close> gives for it, \<open>persisted\<close> what the file holds after a
  run that started from \<open>file\<close>.
\<close>

definition require_file :: "strat list option \<Rightarrow> required" where
  "require_file file =
     (case file of None \<Rightarrow> Require_throws (Some ''MODULE_NOT_FOUND'') | Some strats \<Rightarrow> Required strats)"

definition persisted :: "strat list option \<Rightarrow> aborted + sync \<Rightarrow> strat list option" where
  "persisted file res = (case stratsToHrvst_json res of None \<Rightarrow> file | Some strats \<Rightarrow> Some strats)"

text \<open>The chains of \<open>data/chains.js\<close>, in the order of \<open>Object.values\<close> (ascending keys).\<close>

definition chains_js :: "chain list" where
  "chains_js =
     [\<lparr>c_id = ''cronos'', chainId = 25, hasOnChainHarvesting = False\<rparr>,
      \<lparr>c_id = ''bsc'', chainId = 56, hasOnChainHarvesting = False\<rparr>,
      \<lparr>c_id = ''fuse'', chainId = 122, hasOnChainHarvesting = False\<rparr>,
      \<lparr>c_id = ''heco'', chainId = 128, hasOnChainHarvesting = False\<rparr>,
      \<lparr>c_id = ''polygon'', chainId = 137, hasOnChainHarvesting = False\<rparr>,
      \<lparr>c_id = ''fantom'', chainId = 250, hasOnChainHarvesting = False\<rparr>,
      \<lparr>c_id = ''moonriver'', chainId = 1285, hasOnChainHarvesting = False\<rparr>,
      \<lparr>c_id = ''arbitrum'', chainId = 42161, hasOnChainHarvesting = False\<rparr>,
      \<lparr>c_id = ''celo'', chainId = 42220, hasOnChainHarvesting = False\<rparr>,
      \<lparr>c_id = ''avax'', chainId = 43114, hasOnChainHarvesting = False\<rparr>,
      \<lparr>c_id = ''one'', chainId = 1666600000, hasOnChainHarvesting = False\<rparr>]"

section \<open>Inputs used in the examples\<close>

definition strat_v1 :: strat where
  "strat_v1 =
     \<lparr>s_id = ''v1'', s_chain = ''bsc'', s_earnContractAddress = ''0xE1'',
      s_earnedToken = ''mooV1'', s_strategy = ''0xA'', s_lastHarvest = 10,
      noOnChainHrvst = None\<rparr>"

text \<open>The vault of \<open>strat_v1\<close> after its strategy moved from \<open>0xA\<close> to \<open>0xB\<close>.\<close>

definition vault_v1_migrated :: vault where
  "vault_v1_migrated =
     \<lparr>v_id = ''v1'', v_chain = ''bsc'', v_earnContractAddress = ''0xE1'',
      v_earnedToken = ''mooV1'', v_strategy = ''0xB'', v_status = ''active'',
      v_lastHarvest = 12\<rparr>"

text \<open>The same vault with the strategy of \<open>strat_v1\<close>.\<close>

definition vault_v1 :: vault where
  "vault_v1 =
     \<lparr>v_id = ''v1'', v_chain = ''bsc'', v_earnContractAddress = ''0xE1'',
      v_earnedToken = ''mooV1'', v_strategy = ''0xA'', v_status = ''active'',
      v_lastHarvest = 12\<rparr>"

definition bsc :: chain where
  "bsc = \<lparr>c_id = ''bsc'', chainId = 56, hasOnChainHarvesting = False\<rparr>"

text \<open>
  No chain of \<open>data/chains.js\<close> sets \<open>hasOnChainHarvesting\<close>; \<open>fantom_on\<close> is the
  configuration of fantom with the flag set, and \<open>deny_fantom\<close> a deny-list for it.
\<close>

definition fantom_on :: chain where
  "fantom_on = \<lparr>c_id = ''fantom'', chainId = 250, hasOnChainHarvesting = True\<rparr>"

definition deny_fantom :: "string \<Rightarrow> string set" where
  "deny_fantom i = (if i = ''fantom'' then {''mooDenied''} else {})"

definition deny_none :: "string \<Rightarrow> string set" where
  "deny_none i = {}"

definition est_none :: "nat \<Rightarrow> int \<Rightarrow> bool" where
  "est_none r n = False"

definition est_all :: "nat \<Rightarrow> int \<Rightarrow> bool" where
  "est_all r n = True"

definition strat_f1 :: strat where
  "strat_f1 =
     \<lparr>s_id = ''f1'', s_chain = ''fantom'', s_earnContractAddress = ''0xF1'',
      s_earnedToken = ''mooDenied'', s_strategy = ''0xC'', s_lastHarvest = 10,
      noOnChainHrvst = Some False\<rparr>"

definition vault_f1 :: vault where
  "vault_f1 =
     \<lparr>v_id = ''f1'', v_chain = ''fantom'', v_earnContractAddress = ''0xF1'',
      v_earnedToken = ''mooDenied'', v_strategy = ''0xC'', v_status = ''active'',
      v_lastHarvest = 12\<rparr>"


definition vault_a1 :: vault where
  "vault_a1 =
     \<lparr>v_id = ''a1'', v_chain = ''aurora'', v_earnContractAddress = ''0xA1'',
      v_earnedToken = ''mooA1'', v_strategy = ''0xAA'', v_status = ''active'',
      v_lastHarvest = 12\<rparr>"


text \<open>The vault of \<open>strat_f1\<close> at its end of life.\<close>

definition vault_f1_eol :: vault where
  "vault_f1_eol =
     \<lparr>v_id = ''f1'', v_chain = ''fantom'', v_earnContractAddress = ''0xF1'',
      v_earnedToken = ''mooDenied'', v_strategy = ''0xC'', v_status = ''eol'',
      v_lastHarvest = 12\<rparr>"

text \<open>
  An entry on fantom whose stored \<open>earnedToken\<close> is on the deny-list, and its vault,
  whose \<open>earnedToken\<close> in the catalog is another one.
\<close>

definition strat_f2 :: strat where
  "strat_f2 =
     \<lparr>s_id = ''f2'', s_chain = ''fantom'', s_earnContractAddress = ''0xF2'',
      s_earnedToken = ''mooDenied'', s_strategy = ''0xC2'', s_lastHarvest = 10,
      noOnChainHrvst = Some False\<rparr>"

text \<open>
  A second record for the same strategy and id whose \<open>earnedToken\<close> is on the deny-list,
  and the vault of \<open>strat_v1\<close> after its strategy moved, with an older \<open>lastHarvest\<close>.
\<close>

definition vault_f2_denied :: vault where
  "vault_f2_denied =
     \<lparr>v_id = ''f2'', v_chain = ''fantom'', v_earnContractAddress = ''0xF2'',
      v_earnedToken = ''mooDenied'', v_strategy = ''0xC2'', v_status = ''active'',
      v_lastHarvest = 10\<rparr>"

definition vault_v1_behind :: vault where
  "vault_v1_behind =
     \<lparr>v_id = ''v1'', v_chain = ''bsc'', v_earnContractAddress = ''0xE1'',
      v_earnedToken = ''mooV1'', v_strategy = ''0xB'', v_status = ''active'',
      v_lastHarvest = 5\<rparr>"

definition vault_f2 :: vault where
  "vault_f2 =
     \<lparr>v_id = ''f2'', v_chain = ''fantom'', v_earnContractAddress = ''0xF2'',
      v_earnedToken = ''mooRenamed'', v_strategy = ''0xC2'', v_status = ''active'',
      v_lastHarvest = 10\<rparr>"

section \<open>Predicates of the statements\<close>

definition no_empty_id :: "Hits \<Rightarrow> bool" where
  "no_empty_id hs = ([] \<notin> fst ` set hs)"

text \<open>
  On-chain eligibility in the words of the specification: the chain supports on-chain
  harvesting and the \<open>earnedToken\<close> of the vault is not on the deny-list of the chain.
\<close>

definition eligible :: "(string \<Rightarrow> string set) \<Rightarrow> chain \<Rightarrow> vault \<Rightarrow> bool" where
  "eligible deny c v = (hasOnChainHarvesting c \<and> v_earnedToken v \<notin> deny (c_id c))"

text \<open>
  The array \<open>xs\<close> differs from \<open>xs0\<close> in a way that turns for vaults with a key
  outside \<open>K\<close> do not undo: it is longer, or a slot of \<open>xs0\<close> has changed and is now a
  hole or an entry whose strategy and id are a key of \<open>K\<close>.
\<close>

definition touched :: "(string \<times> string) set \<Rightarrow> strat option list \<Rightarrow> strat option list \<Rightarrow> bool" where
  "touched K xs0 xs =
     (length xs0 < length xs \<or>
      (\<exists>j<length xs0. xs ! j \<noteq> xs0 ! j \<and>
           (case xs ! j of None \<Rightarrow> True | Some s \<Rightarrow> (s_strategy s, s_id s) \<in> K)))"

definition pass_inv :: "(string \<times> string) set \<Rightarrow> strat option list \<Rightarrow> sync \<Rightarrow> bool" where
  "pass_inv K xs0 st =
     (length xs0 \<le> length (stratsToHarvest st) \<and>
      (if dirty st then touched K xs0 (stratsToHarvest st) else stratsToHarvest st = xs0))"



text \<open>
  The array \<open>ys\<close> continues the array \<open>xs\<close>: every slot of \<open>xs\<close> that still holds an
  object in \<open>ys\<close> held an object with the same chain, id and strategy in \<open>xs\<close>, and
  its \<open>lastHarvest\<close> is the old one or the greater \<open>lastHarvest\<close> of a vault of \<open>V\<close>
  with the strategy and id of the entry.
\<close>

definition continues :: "vault set \<Rightarrow> strat option list \<Rightarrow> strat option list \<Rightarrow> bool" where
  "continues V xs ys =
     (length xs \<le> length ys \<and>
      (\<forall>i<length xs. \<forall>e'. ys ! i = Some e' \<longrightarrow>
         (\<exists>e. xs ! i = Some e \<and> s_chain e' = s_chain e \<and> s_id e' = s_id e \<and>
              s_strategy e' = s_strategy e \<and>
              (s_lastHarvest e' = s_lastHarvest e \<or>
               (\<exists>v\<in>V. v_strategy v = s_strategy e \<and> v_id v = s_id e \<and>
                     s_lastHarvest e' = v_lastHarvest v \<and> s_lastHarvest e < v_lastHarvest v)))))"

text \<open>The entry that line 77 finds for the vault \<open>v\<close> in \<open>xs\<close> has \<open>noOnChainHrvst\<close> true.\<close>

definition flagged :: "vault \<Rightarrow> strat option list \<Rightarrow> bool" where
  "flagged v xs =
     (case findIndex (matches v) xs of
        None \<Rightarrow> False
      | Some i \<Rightarrow> (case xs ! i of None \<Rightarrow> False | Some s \<Rightarrow> noOnChainHrvst s = Some True))"

section \<open>Basic facts\<close>

lemma findIndex_matches:
  "findIndex (matches v) xs = Some i \<Longrightarrow>
     i < length xs \<and> (\<exists>s. xs ! i = Some s \<and> v_strategy v = s_strategy s \<and> v_id v = s_id s)"
proof (induction xs arbitrary: i)
  case Nil
  then show ?case by simp
next
  case (Cons x xs)
  show ?case
  proof (cases "matches v x")
    case True
    with Cons.prems show ?thesis
      by (auto simp: matches_def split: option.splits)
  next
    case False
    with Cons.prems obtain j where j: "findIndex (matches v) xs = Some j" "i = Suc j"
      by auto
    with Cons.IH [of j] show ?thesis by simp
  qed
qed

subsection \<open>One vault of a pass, case by case\<close>

lemma SyncVaults_vault_skip: "c_id c \<noteq> v_chain v \<Longrightarrow> SyncVaults_vault deny c v st = st"
  by (simp add: SyncVaults_vault_def)

lemma SyncVaults_vault_dormant:
  "findIndex (matches v) (stratsToHarvest st) = None \<Longrightarrow> inactive v \<Longrightarrow>
   SyncVaults_vault deny c v st = st"
  by (simp add: SyncVaults_vault_def)

lemma SyncVaults_vault_new:
  assumes "c_id c = v_chain v" "findIndex (matches v) (stratsToHarvest st) = None" "\<not> inactive v"
  shows "SyncVaults_vault deny c v st =
    st\<lparr>stratsToHarvest := stratsToHarvest st @
          [Some ((new_strat v)\<lparr>noOnChainHrvst :=
             (if hasOnChainHarvesting c \<and> \<not> onChainHarvest deny c v then Some True else None)\<rparr>)],
       added := Suc (added st), dirty := True,
       encountered := insert (v_id v) (encountered st),
       hits := Hits_add (v_id v) Added (hits st),
       notOnChainHarvest :=
         (if onChainHarvest deny c v then notOnChainHarvest st
          else notOnChainHarvest st @ [length (stratsToHarvest st)])\<rparr>"
  using assms
  by (simp add: SyncVaults_vault_def SyncVaults_routing_def Let_def switch_due_def truthy_def
      new_strat_def)

lemma SyncVaults_vault_removed:
  assumes "c_id c = v_chain v" "findIndex (matches v) (stratsToHarvest st) = Some i" "inactive v"
  shows "SyncVaults_vault deny c v st =
    st\<lparr>stratsToHarvest := (stratsToHarvest st)[i := None],
       removed := Suc (removed st), dirty := True,
       hits := Hits_add (v_id v) Removed_inactive (hits st)\<rparr>"
  using assms findIndex_matches [OF assms(2)]
  by (auto simp: SyncVaults_vault_def)

lemma SyncVaults_vault_found:
  assumes "c_id c = v_chain v" "findIndex (matches v) (stratsToHarvest st) = Some i"
    "\<not> inactive v" "stratsToHarvest st ! i = Some s"
  shows "SyncVaults_vault deny c v st =
    st\<lparr>encountered := insert (v_id v) (encountered st),
       stratsToHarvest := (stratsToHarvest st)
         [i := Some (s\<lparr>noOnChainHrvst :=
                   (if switch_due deny c v s then Some (\<not> onChainHarvest deny c v)
                    else noOnChainHrvst s),
                 s_lastHarvest := max (s_lastHarvest s) (v_lastHarvest v)\<rparr>)],
       dirty := (dirty st \<or> switch_due deny c v s \<or> s_lastHarvest s < v_lastHarvest v),
       hits := (if switch_due deny c v s
                then Hits_add (v_id v) On_chain_harvest_switch (hits st) else hits st),
       notOnChainHarvest :=
         (if onChainHarvest deny c v then notOnChainHarvest st
          else notOnChainHarvest st @ [i])\<rparr>"
proof -
  from findIndex_matches [OF assms(2)] assms(4)
  have same: "s_strategy s = v_strategy v" by auto
  show ?thesis
    using assms same
    by (simp add: SyncVaults_vault_def SyncVaults_routing_def Let_def max_def)
qed

subsection \<open>The hit log has no empty id\<close>

lemma fold_invariant:
  "P s \<Longrightarrow> (\<And>x s. P s \<Longrightarrow> P (f x s)) \<Longrightarrow> P (fold f xs s)"
  by (induction xs arbitrary: s) auto

lemma Hits_store_keys: "fst ` set (Hits_store i t hs) = insert i (fst ` set hs)"
proof (induction hs)
  case Nil
  show ?case by simp
next
  case (Cons p hs)
  obtain k h where p: "p = (k, h)" by (cases p)
  show ?case
  proof (cases "k = i")
    case True
    then show ?thesis by (simp add: p insert_absorb)
  next
    case False
    then show ?thesis using Cons.IH by (simp add: p insert_commute)
  qed
qed

lemma Hits_add_keys: "fst ` set (Hits_add i t hs) \<subseteq> (if i = [] then {} else {i}) \<union> fst ` set hs"
  by (auto simp: Hits_add_def Hits_store_keys)

lemma set_Object_values: "set (Object_values hs) = set hs"
proof -
  let ?f = "\<lambda>p. map_option (\<lambda>n. (n, p)) (array_index (fst p))"
  have "snd ` set (List.map_filter ?f hs) = {p \<in> set hs. array_index (fst p) \<noteq> None}"
    by (force simp: List.map_filter_def)
  then show ?thesis
    by (auto simp: Object_values_def)
qed

lemma no_empty_id_add: "no_empty_id hs \<Longrightarrow> no_empty_id (Hits_add i t hs)"
  using Hits_add_keys [of i t hs] by (auto simp: no_empty_id_def split: if_splits)

lemma no_empty_id_vault:
  "no_empty_id (hits st) \<Longrightarrow> no_empty_id (hits (SyncVaults_vault deny c v st))"
  by (simp add: SyncVaults_vault_def SyncVaults_routing_def Let_def no_empty_id_add
      split: option.splits)

lemma no_empty_id_SyncVaults:
  "no_empty_id (hits st) \<Longrightarrow> no_empty_id (hits (SyncVaults deny c vs st))"
  unfolding SyncVaults_def
  by (rule fold_invariant [where P = "\<lambda>s. no_empty_id (hits s)"]) (simp_all add: no_empty_id_vault)

lemma no_empty_id_chain_task:
  "no_empty_id (hits st) \<Longrightarrow> no_empty_id (hits (chain_task deny est vs c st))"
  using no_empty_id_SyncVaults [of "ChainStratManager st" deny c vs]
  by (simp add: chain_task_def Let_def ChainStratManager_def)

lemma no_empty_id_sweep:
  "no_empty_id hs \<Longrightarrow> no_empty_id (snd (sweep enc xs hs))"
  by (induction enc xs hs rule: sweep.induct) (auto simp: no_empty_id_add split: prod.splits)

lemma no_empty_id_reconcile: "no_empty_id (hits (reconcile deny est chs vs strats))"
proof -
  have "no_empty_id (hits (fold (chain_task deny est vs) chs (initial strats)))"
  proof (rule fold_invariant [where P = "\<lambda>s. no_empty_id (hits s)"])
    show "no_empty_id (hits (initial strats))" by (simp add: initial_def no_empty_id_def)
  qed (rule no_empty_id_chain_task)
  then show ?thesis
    using no_empty_id_sweep [of "hits (fold (chain_task deny est vs) chs (initial strats))"]
    by (simp add: reconcile_def Let_def split: prod.splits) (metis snd_conv)
qed

text \<open>
  C10: \<open>Hits.add\<close> with the empty id, for any tag, returns the hit log as it was; and
  the change log that \<open>main\<close> writes (nothing, when it writes none) has no record with
  an empty id.
\<close>

theorem Hits_add_empty_id:
  "Hits_add [] t hs = hs \<and>
   [] \<notin> fst ` set (case stratsSync_json (main deny est chs f r) of None \<Rightarrow> [] | Some written \<Rightarrow> written)"
proof
  show "Hits_add [] t hs = hs" by (simp add: Hits_add_def)
  show "[] \<notin> fst ` set (case stratsSync_json (main deny est chs f r) of None \<Rightarrow> [] | Some written \<Rightarrow> written)"
  proof (cases "main deny est chs f r")
    case (Inl a)
    then show ?thesis by (simp add: stratsSync_json_def)
  next
    case (Inr st)
    then have "no_empty_id (hits st)"
      using no_empty_id_reconcile
      by (auto simp: main_def split: fetched.splits option.splits required.splits if_splits)
    then show ?thesis
      using Inr by (simp add: stratsSync_json_def no_empty_id_def set_Object_values)
  qed
qed

section \<open>Failures of the fetch and of the load\<close>

text \<open>
  C8: a fetch that rejects, a response that is not ok or has no body, and a body that
  does not parse end \<open>main\<close> before any chain is processed; a stored list that is
  missing (\<open>MODULE_NOT_FOUND\<close>) makes the run start from the empty list; any other
  failure of the load ends \<open>main\<close>; and a run that ended so writes neither file.
\<close>

theorem main_aborts:
  "main deny est chs Fetch_rejected r = Inl Fetch_error \<and>
   (\<not> (is_ok \<and> has_body) \<longrightarrow> main deny est chs (Response is_ok has_body js) r = Inl Fetching_vaults_failed) \<and>
   main deny est chs (Response True True None) r = Inl Fetch_error \<and>
   main deny est chs (Response True True (Some vaults)) (Require_throws (Some ''MODULE_NOT_FOUND''))
     = Inr (reconcile deny est chs vaults []) \<and>
   (code \<noteq> Some ''MODULE_NOT_FOUND'' \<longrightarrow>
      main deny est chs (Response True True (Some vaults)) (Require_throws code) = Inl Require_error) \<and>
   stratsSync_json (Inl a) = None \<and> stratsToHrvst_json (Inl a) = None"
  by (simp add: main_def stratsSync_json_def stratsToHrvst_json_def)

theorem main_aborts_witness:
  "\<not> (False \<and> True) \<and>
   main deny_none est_none chains_js (Response False True (Some [])) (Required []) = Inl Fetching_vaults_failed \<and>
   None \<noteq> Some ''MODULE_NOT_FOUND'' \<and>
   main deny_none est_none chains_js (Response True True (Some [])) (Require_throws None) = Inl Require_error \<and>
   stratsToHrvst_json (main deny_none est_none chains_js (Response True True (Some [])) (Require_throws None)) = None"
  using main_aborts [of deny_none est_none chains_js "Required []" False True "Some []" "[]" None Require_error]
  by simp

section \<open>Uniqueness of \<open>(chain, id)\<close>\<close>

text \<open>
  C1: the run on the stored list \<open>[strat_v1]\<close> and the catalog
  \<open>[vault_v1_migrated]\<close> (same chain and id, another strategy) saves two entries with
  the chain and id of \<open>strat_v1\<close>: the stored list does not keep one entry per
  \<open>(chain, id)\<close>.
\<close>

theorem duplicate_after_migration:
  "persisted (Some [strat_v1])
     (main deny_none est_none chains_js (Response True True (Some [vault_v1_migrated]))
        (require_file (Some [strat_v1])))
   = Some [strat_v1, new_strat vault_v1_migrated] \<and>
   s_chain (new_strat vault_v1_migrated) = s_chain strat_v1 \<and>
   s_id (new_strat vault_v1_migrated) = s_id strat_v1"
  by code_simp

section \<open>Two runs in succession\<close>

text \<open>
  C5: with the stored list \<open>[strat_v1]\<close> and an empty catalog, the first run leaves
  the stored list as it was, with the decommissioned entry in it, and the second run on
  the same catalog records the removal again: its change log is not empty.
\<close>

theorem decomissioned_logged_again:
  "persisted (Some [strat_v1])
     (main deny_none est_all chains_js (Response True True (Some [])) (require_file (Some [strat_v1])))
   = Some [strat_v1] \<and>
   stratsSync_json
     (main deny_none est_all chains_js (Response True True (Some []))
        (require_file (persisted (Some [strat_v1])
           (main deny_none est_all chains_js (Response True True (Some []))
              (require_file (Some [strat_v1]))))))
   = Some [(''v1'', Single Removed_decomissioned)]"
  by code_simp

section \<open>The routing flag\<close>

lemma onChainHarvest_eligible: "onChainHarvest deny c v = eligible deny c v"
  by (simp add: onChainHarvest_def eligible_def denyOnChainHarvest_def)

lemma switch_due_iff:
  "switch_due deny c v s =
     (hasOnChainHarvesting c \<and> eligible deny c v \<noteq> (\<not> truthy (noOnChainHrvst s)))"
  by (auto simp: switch_due_def onChainHarvest_eligible eligible_def)

text \<open>
  C2, as the code has it, for a vault of the chain of the manager. If the vault is
  inactive, no flag is written: an entry that is found is removed and
  \<open>removed, inactive\<close> is passed to \<open>Hits.add\<close>, and without an entry nothing happens.
  If the vault is not inactive and the chain has \<open>hasOnChainHarvesting\<close>, then
  whenever eligibility disagrees with the inverse of the flag of its entry the flag
  becomes the negation of eligibility; for an entry that was found this sets \<open>dirty\<close>
  and passes the switch to \<open>Hits.add\<close>, for an entry created in this turn only
  \<open>added\<close> is passed. In every other case of a vault that is not inactive, so on every
  chain without \<open>hasOnChainHarvesting\<close>, the flag stays as it was and no switch is
  recorded.
\<close>

theorem routing_switch:
  assumes "c_id c = v_chain v"
  shows "case findIndex (matches v) (stratsToHarvest st) of
      Some i \<Rightarrow>
        (\<exists>s. stratsToHarvest st ! i = Some s \<and>
           (if inactive v
            then stratsToHarvest (SyncVaults_vault deny c v st) ! i = None \<and>
                 hits (SyncVaults_vault deny c v st) =
                   Hits_add (v_id v) Removed_inactive (hits st)
            else (\<exists>s'. stratsToHarvest (SyncVaults_vault deny c v st) ! i = Some s' \<and>
                   (if hasOnChainHarvesting c \<and>
                       eligible deny c v \<noteq> (\<not> truthy (noOnChainHrvst s))
                    then noOnChainHrvst s' = Some (\<not> eligible deny c v) \<and>
                         dirty (SyncVaults_vault deny c v st) \<and>
                         hits (SyncVaults_vault deny c v st) =
                           Hits_add (v_id v) On_chain_harvest_switch (hits st)
                    else noOnChainHrvst s' = noOnChainHrvst s \<and>
                         hits (SyncVaults_vault deny c v st) = hits st))))
    | None \<Rightarrow>
        (if inactive v then SyncVaults_vault deny c v st = st
         else (\<exists>s'. stratsToHarvest (SyncVaults_vault deny c v st) ! length (stratsToHarvest st)
                      = Some s' \<and>
                 hits (SyncVaults_vault deny c v st) = Hits_add (v_id v) Added (hits st) \<and>
                 noOnChainHrvst s' =
                   (if hasOnChainHarvesting c \<and> eligible deny c v \<noteq> (\<not> truthy None)
                    then Some (\<not> eligible deny c v) else None)))"
proof (cases "findIndex (matches v) (stratsToHarvest st)")
  case None
  show ?thesis
  proof (cases "inactive v")
    case True
    with None show ?thesis by (simp add: SyncVaults_vault_dormant)
  next
    case False
    show ?thesis
      using None False
      by (simp add: SyncVaults_vault_new [OF assms None False] onChainHarvest_eligible
          truthy_def eligible_def)
  qed
next
  case (Some i)
  from findIndex_matches [OF Some] obtain s where
    s: "stratsToHarvest st ! i = Some s" and i: "i < length (stratsToHarvest st)"
    by auto
  show ?thesis
  proof (cases "inactive v")
    case True
    show ?thesis
      using Some s i True
      by (simp add: SyncVaults_vault_removed [OF assms Some True])
  next
    case False
    show ?thesis
      using Some s i False
      by (simp add: SyncVaults_vault_found [OF assms Some False s] switch_due_iff
          onChainHarvest_eligible)
  qed
qed

theorem routing_switch_witness:
  "c_id fantom_on = v_chain vault_f1 \<and> \<not> inactive vault_f1 \<and>
   findIndex (matches vault_f1) (stratsToHarvest (initial [strat_f1])) = Some 0 \<and>
   (\<exists>s'. stratsToHarvest (SyncVaults_vault deny_fantom fantom_on vault_f1 (initial [strat_f1])) ! 0
           = Some s' \<and>
         noOnChainHrvst s' = Some True \<and>
         dirty (SyncVaults_vault deny_fantom fantom_on vault_f1 (initial [strat_f1])) \<and>
         hits (SyncVaults_vault deny_fantom fantom_on vault_f1 (initial [strat_f1]))
           = [(''f1'', Single On_chain_harvest_switch)])"
proof -
  have h1: "c_id fantom_on = v_chain vault_f1" by (simp add: fantom_on_def vault_f1_def)
  have h2: "\<not> inactive vault_f1" by (simp add: inactive_def vault_f1_def)
  have h3: "findIndex (matches vault_f1) (stratsToHarvest (initial [strat_f1])) = Some 0"
    by (simp add: initial_def matches_def vault_f1_def strat_f1_def)
  have h4: "\<not> eligible deny_fantom fantom_on vault_f1"
    by (simp add: eligible_def deny_fantom_def fantom_on_def vault_f1_def)
  have h5: "hasOnChainHarvesting fantom_on" by (simp add: fantom_on_def)
  have h6: "noOnChainHrvst strat_f1 = Some False" by (simp add: strat_f1_def)
  have h7: "stratsToHarvest (initial [strat_f1]) ! 0 = Some strat_f1" by (simp add: initial_def)
  have h8: "hits (initial [strat_f1]) = []" by (simp add: initial_def)
  have h9: "Hits_add (v_id vault_f1) On_chain_harvest_switch [] = [(''f1'', Single On_chain_harvest_switch)]"
    by (simp add: Hits_add_def vault_f1_def Object_prototype_def)
  show ?thesis
    using routing_switch [OF h1, where st = "initial [strat_f1]" and deny = deny_fantom]
      h1 h2 h3 h4 h5 h6 h7 h8 h9
    by (auto simp: truthy_def)
qed

text \<open>
  C2 as stated fails twice. On \<open>bsc\<close>, which has no on-chain harvesting, the entry
  \<open>strat_v1\<close> has no flag, eligibility is false and disagrees with the inverse of the
  flag, and the flag is not set to the negation of eligibility. On \<open>fantom_on\<close> the
  entry \<open>strat_f1\<close> is found for a vault at its end of life, eligibility is false and
  disagrees with the inverse of the flag, and the entry is removed: no flag is set and
  the log has \<open>removed, inactive\<close>, not the switch.
\<close>

theorem no_switch_without_on_chain_harvesting:
  "c_id bsc = v_chain vault_v1 \<and> \<not> inactive vault_v1 \<and>
   findIndex (matches vault_v1) (stratsToHarvest (initial [strat_v1])) = Some 0 \<and>
   eligible deny_none bsc vault_v1 \<noteq> (\<not> truthy (noOnChainHrvst strat_v1)) \<and>
   map_option noOnChainHrvst
     (stratsToHarvest (SyncVaults_vault deny_none bsc vault_v1 (initial [strat_v1])) ! 0)
     \<noteq> Some (Some (\<not> eligible deny_none bsc vault_v1)) \<and>
   c_id fantom_on = v_chain vault_f1_eol \<and>
   findIndex (matches vault_f1_eol) (stratsToHarvest (initial [strat_f1])) = Some 0 \<and>
   eligible deny_fantom fantom_on vault_f1_eol \<noteq> (\<not> truthy (noOnChainHrvst strat_f1)) \<and>
   stratsToHarvest (SyncVaults_vault deny_fantom fantom_on vault_f1_eol (initial [strat_f1]))
     = [None] \<and>
   hits (SyncVaults_vault deny_fantom fantom_on vault_f1_eol (initial [strat_f1]))
     = [(''f1'', Single Removed_inactive)]"
  by code_simp

section \<open>What \<open>SyncVaults\<close> returns\<close>

lemma strat_update_same:
  "(s\<lparr>noOnChainHrvst := f, s_lastHarvest := l\<rparr> = s) = (f = noOnChainHrvst s \<and> l = s_lastHarvest s)"
  by (cases s) auto

lemma switch_due_changes:
  "switch_due deny c v s \<Longrightarrow> Some (\<not> onChainHarvest deny c v) \<noteq> noOnChainHrvst s"
  by (auto simp: switch_due_def truthy_def split: if_splits)

lemma vault_dirty_iff:
  "dirty (SyncVaults_vault deny c v st) =
     (dirty st \<or> stratsToHarvest (SyncVaults_vault deny c v st) \<noteq> stratsToHarvest st)"
proof (cases "c_id c = v_chain v")
  case False
  then show ?thesis by (simp add: SyncVaults_vault_skip)
next
  case chain: True
  show ?thesis
  proof (cases "findIndex (matches v) (stratsToHarvest st)")
    case None
    then show ?thesis
      using chain
      by (cases "inactive v") (simp_all add: SyncVaults_vault_dormant SyncVaults_vault_new)
  next
    case (Some i)
    from findIndex_matches [OF Some] obtain s where
      s: "stratsToHarvest st ! i = Some s" and i: "i < length (stratsToHarvest st)"
      by auto
    show ?thesis
    proof (cases "inactive v")
      case True
      have "(stratsToHarvest st)[i := None] \<noteq> stratsToHarvest st"
        using s i by (metis nth_list_update_eq option.distinct(1))
      then show ?thesis
        by (simp add: SyncVaults_vault_removed [OF chain Some True])
    next
      case False
      let ?s' = "s\<lparr>noOnChainHrvst :=
                   (if switch_due deny c v s then Some (\<not> onChainHarvest deny c v)
                    else noOnChainHrvst s),
                 s_lastHarvest := max (s_lastHarvest s) (v_lastHarvest v)\<rparr>"
      have upd: "((stratsToHarvest st)[i := Some ?s'] \<noteq> stratsToHarvest st) = (?s' \<noteq> s)"
        using s i by (metis list_update_id nth_list_update_eq option.inject)
      have "(?s' \<noteq> s) = (switch_due deny c v s \<or> s_lastHarvest s < v_lastHarvest v)"
        using switch_due_changes [of deny c v s]
        by (auto simp: strat_update_same max_def)
      with upd show ?thesis
        by (simp add: SyncVaults_vault_found [OF chain Some False s])
    qed
  qed
qed

lemma dirty_stays: "dirty st \<Longrightarrow> dirty (fold (SyncVaults_vault deny c) vs st)"
  by (induction vs arbitrary: st) (simp_all add: vault_dirty_iff)

lemma fold_clean_same:
  "\<not> dirty (fold (SyncVaults_vault deny c) vs st) \<Longrightarrow>
   stratsToHarvest (fold (SyncVaults_vault deny c) vs st) = stratsToHarvest st"
proof (induction vs arbitrary: st)
  case Nil
  show ?case by simp
next
  case (Cons v vs)
  from Cons.prems have rest: "\<not> dirty (fold (SyncVaults_vault deny c) vs (SyncVaults_vault deny c v st))"
    by simp
  then have "\<not> dirty (SyncVaults_vault deny c v st)"
    using dirty_stays by blast
  then have "stratsToHarvest (SyncVaults_vault deny c v st) = stratsToHarvest st"
    by (simp add: vault_dirty_iff)
  with Cons.IH [OF rest] show ?case by simp
qed

lemma fold_dirty_turn:
  "dirty (fold (SyncVaults_vault deny c) vs st) =
     (dirty st \<or>
      (\<exists>k<length vs.
          stratsToHarvest (fold (SyncVaults_vault deny c) (take (Suc k) vs) st) \<noteq>
          stratsToHarvest (fold (SyncVaults_vault deny c) (take k vs) st)))"
proof (induction vs rule: rev_induct)
  case Nil
  show ?case by simp
next
  case (snoc v vs)
  let ?F = "SyncVaults_vault deny c"
  let ?turn = "\<lambda>ws k. stratsToHarvest (fold ?F (take (Suc k) ws) st) \<noteq>
                       stratsToHarvest (fold ?F (take k ws) st)"
  have early: "?turn (vs @ [v]) k = ?turn vs k" if "k < length vs" for k
    using that by simp
  have last: "?turn (vs @ [v]) (length vs) =
      (stratsToHarvest (?F v (fold ?F vs st)) \<noteq> stratsToHarvest (fold ?F vs st))"
    by simp
  have "(\<exists>k<length (vs @ [v]). ?turn (vs @ [v]) k) =
        ((\<exists>k<length vs. ?turn vs k) \<or> ?turn (vs @ [v]) (length vs))"
    using early by (auto simp: less_Suc_eq)
  moreover have "dirty (fold ?F (vs @ [v]) st) =
      (dirty (fold ?F vs st) \<or>
       stratsToHarvest (?F v (fold ?F vs st)) \<noteq> stratsToHarvest (fold ?F vs st))"
    by (simp add: vault_dirty_iff)
  ultimately show ?case
    using snoc.IH last by blast
qed

text \<open>What one turn can change: the slot of the entry it found, or a new last slot.\<close>

lemma vault_footprint:
  "length (stratsToHarvest st) \<le> length (stratsToHarvest (SyncVaults_vault deny c v st)) \<and>
   (\<forall>j<length (stratsToHarvest st).
      stratsToHarvest (SyncVaults_vault deny c v st) ! j \<noteq> stratsToHarvest st ! j \<longrightarrow>
        c_id c = v_chain v \<and>
        (\<exists>s. stratsToHarvest st ! j = Some s \<and> s_strategy s = v_strategy v \<and> s_id s = v_id v) \<and>
        (case stratsToHarvest (SyncVaults_vault deny c v st) ! j of
           None \<Rightarrow> True
         | Some s' \<Rightarrow> s_strategy s' = v_strategy v \<and> s_id s' = v_id v))"
proof (cases "c_id c = v_chain v")
  case False
  then show ?thesis by (simp add: SyncVaults_vault_skip)
next
  case chain: True
  show ?thesis
  proof (cases "findIndex (matches v) (stratsToHarvest st)")
    case None
    then show ?thesis
      using chain
      by (cases "inactive v")
        (simp_all add: SyncVaults_vault_dormant SyncVaults_vault_new nth_append)
  next
    case (Some i)
    from findIndex_matches [OF Some] obtain s where
      s: "stratsToHarvest st ! i = Some s" and i: "i < length (stratsToHarvest st)" and
      k: "v_strategy v = s_strategy s" "v_id v = s_id s"
      by auto
    show ?thesis
    proof (cases "inactive v")
      case True
      show ?thesis
        unfolding SyncVaults_vault_removed [OF chain Some True]
        using s i k chain by (auto simp: nth_list_update)
    next
      case False
      show ?thesis
        unfolding SyncVaults_vault_found [OF chain Some False s]
        using s i k chain by (auto simp: nth_list_update)
    qed
  qed
qed

lemma touched_mono: "touched K xs0 xs \<Longrightarrow> K \<subseteq> K' \<Longrightarrow> touched K' xs0 xs"
  unfolding touched_def by (fastforce split: option.splits)

lemma touched_differs: "touched K xs0 xs \<Longrightarrow> xs \<noteq> xs0"
  unfolding touched_def by auto

lemma pass_inv_vault:
  assumes inv: "pass_inv K xs0 st"
    and fresh: "c_id c = v_chain v \<longrightarrow> (v_strategy v, v_id v) \<notin> K"
  shows "pass_inv (if c_id c = v_chain v then insert (v_strategy v, v_id v) K else K) xs0
           (SyncVaults_vault deny c v st)"
proof (cases "c_id c = v_chain v")
  case False
  with inv show ?thesis by (simp add: SyncVaults_vault_skip)
next
  case chain: True
  let ?st' = "SyncVaults_vault deny c v st"
  let ?xs = "stratsToHarvest st"
  let ?xs' = "stratsToHarvest ?st'"
  let ?K' = "insert (v_strategy v, v_id v) K"
  from vault_footprint [of st deny c v] have
    len: "length ?xs \<le> length ?xs'" and
    foot: "\<And>j. j < length ?xs \<Longrightarrow> ?xs' ! j \<noteq> ?xs ! j \<Longrightarrow>
        (\<exists>s. ?xs ! j = Some s \<and> s_strategy s = v_strategy v \<and> s_id s = v_id v) \<and>
        (case ?xs' ! j of None \<Rightarrow> True
         | Some s' \<Rightarrow> s_strategy s' = v_strategy v \<and> s_id s' = v_id v)"
    by blast+
  from inv have len0: "length xs0 \<le> length ?xs" by (simp add: pass_inv_def)
  have goal: "if dirty ?st' then touched ?K' xs0 ?xs' else ?xs' = xs0"
  proof (cases "dirty st")
    case True
    with inv have t: "touched K xs0 ?xs" by (simp add: pass_inv_def)
    have d': "dirty ?st'" using True by (simp add: vault_dirty_iff)
    have "touched ?K' xs0 ?xs'"
    proof (cases "length xs0 < length ?xs")
      case True
      with len show ?thesis by (simp add: touched_def)
    next
      case False
      with t obtain j where j: "j < length xs0" and ne: "?xs ! j \<noteq> xs0 ! j" and
        kj: "case ?xs ! j of None \<Rightarrow> True | Some s \<Rightarrow> (s_strategy s, s_id s) \<in> K"
        unfolding touched_def by blast
      from j len0 have j': "j < length ?xs" by simp
      have same: "?xs' ! j = ?xs ! j"
      proof (rule ccontr)
        assume "?xs' ! j \<noteq> ?xs ! j"
        from foot [OF j' this] obtain s where
          "?xs ! j = Some s" "s_strategy s = v_strategy v" "s_id s = v_id v"
          by blast
        with kj fresh chain show False by simp
      qed
      from kj have "case ?xs ! j of None \<Rightarrow> True | Some s \<Rightarrow> (s_strategy s, s_id s) \<in> ?K'"
        by (simp split: option.splits)
      with j ne same show ?thesis
        unfolding touched_def by auto
    qed
    with d' show ?thesis by simp
  next
    case clean: False
    with inv have eq: "?xs = xs0" by (simp add: pass_inv_def)
    show ?thesis
    proof (cases "dirty ?st'")
      case False
      then have "?xs' = ?xs" by (simp add: vault_dirty_iff)
      with False eq show ?thesis by simp
    next
      case True
      with clean have ne: "?xs' \<noteq> ?xs" by (simp add: vault_dirty_iff)
      have "touched ?K' xs0 ?xs'"
      proof (cases "length ?xs < length ?xs'")
        case True
        with eq show ?thesis by (simp add: touched_def)
      next
        case False
        with len have "length ?xs' = length ?xs" by simp
        with ne obtain j where j: "j < length ?xs" and nj: "?xs' ! j \<noteq> ?xs ! j"
          by (auto simp: list_eq_iff_nth_eq)
        from foot [OF j nj] have
          "case ?xs' ! j of None \<Rightarrow> True | Some s' \<Rightarrow> (s_strategy s', s_id s') \<in> ?K'"
          by (auto split: option.splits)
        with j nj eq show ?thesis
          unfolding touched_def by auto
      qed
      with True show ?thesis by simp
    qed
  qed
  from len len0 goal chain show ?thesis
    by (simp add: pass_inv_def)
qed

lemma pass_inv_fold:
  "pass_inv K xs0 st \<Longrightarrow>
   distinct (map (\<lambda>v. (v_strategy v, v_id v)) (filter (\<lambda>v. c_id c = v_chain v) vs)) \<Longrightarrow>
   \<forall>v\<in>set vs. c_id c = v_chain v \<longrightarrow> (v_strategy v, v_id v) \<notin> K \<Longrightarrow>
   \<exists>K'. pass_inv K' xs0 (fold (SyncVaults_vault deny c) vs st)"
proof (induction vs arbitrary: K st)
  case Nil
  then show ?case by auto
next
  case (Cons w ws)
  let ?K' = "if c_id c = v_chain w then insert (v_strategy w, v_id w) K else K"
  from Cons.prems(3) have "c_id c = v_chain w \<longrightarrow> (v_strategy w, v_id w) \<notin> K" by simp
  from pass_inv_vault [OF Cons.prems(1) this]
  have step: "pass_inv ?K' xs0 (SyncVaults_vault deny c w st)" .
  have d: "distinct (map (\<lambda>v. (v_strategy v, v_id v)) (filter (\<lambda>v. c_id c = v_chain v) ws))"
    using Cons.prems(2) by (simp split: if_splits)
  have f: "\<forall>v\<in>set ws. c_id c = v_chain v \<longrightarrow> (v_strategy v, v_id v) \<notin> ?K'"
  proof (intro ballI impI)
    fix v assume v: "v \<in> set ws" and cv: "c_id c = v_chain v"
    from Cons.prems(3) v cv have "(v_strategy v, v_id v) \<notin> K" by simp
    moreover have "(v_strategy v, v_id v) \<noteq> (v_strategy w, v_id w)" if "c_id c = v_chain w"
    proof -
      from Cons.prems(2) that
      have "(v_strategy w, v_id w) \<notin>
          (\<lambda>v. (v_strategy v, v_id v)) ` set (filter (\<lambda>v. c_id c = v_chain v) ws)"
        by simp
      moreover have "(v_strategy v, v_id v) \<in>
          (\<lambda>v. (v_strategy v, v_id v)) ` set (filter (\<lambda>v. c_id c = v_chain v) ws)"
        using v cv by (simp add: image_iff) blast
      ultimately show ?thesis by auto
    qed
    ultimately show "(v_strategy v, v_id v) \<notin> ?K'" by auto
  qed
  from Cons.IH [OF step d f] show ?case by simp
qed

text \<open>
  C9: \<open>SyncVaults\<close> returns true exactly when the turn of some vault of its pass changed
  \<open>stratsToHarvest\<close>, the turns being read off \<open>SyncVaults\<close> itself on the prefixes of
  the catalog; when it returns false the array is as it was before the pass; and when
  no two vaults of the chain share strategy and id, it returns true exactly when the
  array after the pass is not the array before it.
\<close>

theorem SyncVaults_returns_mutated:
  "dirty (SyncVaults deny c vs st) =
     (\<exists>k<length vs.
         stratsToHarvest (SyncVaults deny c (take (Suc k) vs) st) \<noteq>
         stratsToHarvest (SyncVaults deny c (take k vs) st)) \<and>
   (\<not> dirty (SyncVaults deny c vs st) \<longrightarrow>
      stratsToHarvest (SyncVaults deny c vs st) = stratsToHarvest st) \<and>
   (distinct (map (\<lambda>v. (v_strategy v, v_id v)) (filter (\<lambda>v. c_id c = v_chain v) vs)) \<longrightarrow>
      dirty (SyncVaults deny c vs st) =
        (stratsToHarvest (SyncVaults deny c vs st) \<noteq> stratsToHarvest st))"
proof (intro conjI impI)
  show "dirty (SyncVaults deny c vs st) =
     (\<exists>k<length vs.
         stratsToHarvest (SyncVaults deny c (take (Suc k) vs) st) \<noteq>
         stratsToHarvest (SyncVaults deny c (take k vs) st))"
    using fold_dirty_turn [of deny c vs "st\<lparr>dirty := False\<rparr>"]
    by (simp add: SyncVaults_def)
next
  assume "\<not> dirty (SyncVaults deny c vs st)"
  then show "stratsToHarvest (SyncVaults deny c vs st) = stratsToHarvest st"
    using fold_clean_same [of deny c vs "st\<lparr>dirty := False\<rparr>"]
    by (simp add: SyncVaults_def)
next
  assume d: "distinct (map (\<lambda>v. (v_strategy v, v_id v)) (filter (\<lambda>v. c_id c = v_chain v) vs))"
  have "pass_inv {} (stratsToHarvest st) (st\<lparr>dirty := False\<rparr>)"
    by (simp add: pass_inv_def)
  from pass_inv_fold [OF this d, of deny] obtain K where
    "pass_inv K (stratsToHarvest st) (SyncVaults deny c vs st)"
    by (auto simp: SyncVaults_def)
  then show "dirty (SyncVaults deny c vs st) =
      (stratsToHarvest (SyncVaults deny c vs st) \<noteq> stratsToHarvest st)"
    by (auto simp: pass_inv_def dest: touched_differs split: if_splits)
qed

theorem SyncVaults_returns_mutated_witness:
  "\<not> dirty (SyncVaults deny_none bsc [vault_f1] (initial [strat_v1])) \<and>
   stratsToHarvest (SyncVaults deny_none bsc [vault_f1] (initial [strat_v1]))
     = stratsToHarvest (initial [strat_v1]) \<and>
   distinct (map (\<lambda>v. (v_strategy v, v_id v)) (filter (\<lambda>v. c_id bsc = v_chain v) [vault_v1])) \<and>
   dirty (SyncVaults deny_none bsc [vault_v1] (initial [strat_v1])) \<and>
   stratsToHarvest (SyncVaults deny_none bsc [vault_v1] (initial [strat_v1]))
     \<noteq> stratsToHarvest (initial [strat_v1]) \<and>
   (\<exists>k<length [vault_v1].
       stratsToHarvest (SyncVaults deny_none bsc (take (Suc k) [vault_v1]) (initial [strat_v1])) \<noteq>
       stratsToHarvest (SyncVaults deny_none bsc (take k [vault_v1]) (initial [strat_v1])))"
proof -
  have a: "\<not> dirty (SyncVaults deny_none bsc [vault_f1] (initial [strat_v1]))"
    by code_simp
  have b: "dirty (SyncVaults deny_none bsc [vault_v1] (initial [strat_v1]))"
    by code_simp
  have d: "distinct (map (\<lambda>v. (v_strategy v, v_id v))
      (filter (\<lambda>v. c_id bsc = v_chain v) [vault_v1]))"
    by simp
  show ?thesis
    using a b d SyncVaults_returns_mutated [of deny_none bsc "[vault_f1]" "initial [strat_v1]"]
      SyncVaults_returns_mutated [of deny_none bsc "[vault_v1]" "initial [strat_v1]"]
    by blast
qed

text \<open>
  Two records of the catalog with the same strategy and id can undo each other: the
  first sets the flag of \<open>strat_f2\<close>, the second clears it again. \<open>SyncVaults\<close> returns
  true and the array is the one it started from.
\<close>

lemma dirty_though_restored:
  "dirty (SyncVaults deny_fantom fantom_on [vault_f2_denied, vault_f2] (initial [strat_f2])) \<and>
   stratsToHarvest (SyncVaults deny_fantom fantom_on [vault_f2_denied, vault_f2] (initial [strat_f2]))
     = stratsToHarvest (initial [strat_f2])"
  by code_simp

section \<open>The sweep of \<open>main\<close>\<close>

lemma sweep_fst:
  "fst (sweep enc xs hs) =
     map (\<lambda>x. case x of None \<Rightarrow> None | Some s \<Rightarrow> if s_id s \<in> enc then Some s else None) xs"
  by (induction enc xs hs rule: sweep.induct) (auto split: prod.splits)





lemma Hits_add_ignored: "i = [] \<or> i \<in> set Object_prototype \<Longrightarrow> Hits_add i t hs = hs"
  by (auto simp: Hits_add_def)







section \<open>\<open>lastHarvest\<close> across a run\<close>

lemma continues_refl: "continues V xs xs"
  by (simp add: continues_def)

lemma continues_trans:
  assumes "continues V xs ys" and "continues V ys zs"
  shows "continues V xs zs"
  unfolding continues_def
proof (intro conjI allI impI)
  show "length xs \<le> length zs"
    using assms by (simp add: continues_def)
next
  fix i e''
  assume i: "i < length xs" and z: "zs ! i = Some e''"
  from assms(1) i have i': "i < length ys" by (simp add: continues_def)
  from assms(2) i' z obtain e' where
    y: "ys ! i = Some e'" and
    e'': "s_chain e'' = s_chain e'" "s_id e'' = s_id e'" "s_strategy e'' = s_strategy e'" and
    l'': "s_lastHarvest e'' = s_lastHarvest e' \<or>
          (\<exists>v\<in>V. v_strategy v = s_strategy e' \<and> v_id v = s_id e' \<and>
                s_lastHarvest e'' = v_lastHarvest v \<and> s_lastHarvest e' < v_lastHarvest v)"
    unfolding continues_def by blast
  from assms(1) i y obtain e where
    x: "xs ! i = Some e" and
    e': "s_chain e' = s_chain e" "s_id e' = s_id e" "s_strategy e' = s_strategy e" and
    l': "s_lastHarvest e' = s_lastHarvest e \<or>
          (\<exists>v\<in>V. v_strategy v = s_strategy e \<and> v_id v = s_id e \<and>
                s_lastHarvest e' = v_lastHarvest v \<and> s_lastHarvest e < v_lastHarvest v)"
    unfolding continues_def by blast
  have le: "s_lastHarvest e \<le> s_lastHarvest e'" using l' by auto
  have "s_lastHarvest e'' = s_lastHarvest e \<or>
        (\<exists>v\<in>V. v_strategy v = s_strategy e \<and> v_id v = s_id e \<and>
              s_lastHarvest e'' = v_lastHarvest v \<and> s_lastHarvest e < v_lastHarvest v)"
  proof (cases "s_lastHarvest e'' = s_lastHarvest e'")
    case True
    with l' show ?thesis by simp
  next
    case False
    with l'' obtain v where "v \<in> V" "v_strategy v = s_strategy e'" "v_id v = s_id e'"
      "s_lastHarvest e'' = v_lastHarvest v" "s_lastHarvest e' < v_lastHarvest v"
      by blast
    with e' le show ?thesis by force
  qed
  with x e' e''
  show "\<exists>e. xs ! i = Some e \<and> s_chain e'' = s_chain e \<and> s_id e'' = s_id e \<and>
            s_strategy e'' = s_strategy e \<and>
            (s_lastHarvest e'' = s_lastHarvest e \<or>
             (\<exists>v\<in>V. v_strategy v = s_strategy e \<and> v_id v = s_id e \<and>
                   s_lastHarvest e'' = v_lastHarvest v \<and> s_lastHarvest e < v_lastHarvest v))"
    by simp
qed

lemma continues_vault:
  assumes "v \<in> V"
  shows "continues V (stratsToHarvest st) (stratsToHarvest (SyncVaults_vault deny c v st))"
proof (cases "c_id c = v_chain v")
  case False
  then show ?thesis by (simp add: SyncVaults_vault_skip continues_refl)
next
  case chain: True
  show ?thesis
  proof (cases "findIndex (matches v) (stratsToHarvest st)")
    case None
    then show ?thesis
      using chain
      by (cases "inactive v")
        (simp_all add: SyncVaults_vault_dormant SyncVaults_vault_new continues_def nth_append)
  next
    case (Some i)
    from findIndex_matches [OF Some] obtain s where
      s: "stratsToHarvest st ! i = Some s" and i: "i < length (stratsToHarvest st)" and
      k: "v_strategy v = s_strategy s" "v_id v = s_id s"
      by auto
    show ?thesis
    proof (cases "inactive v")
      case True
      show ?thesis
        unfolding SyncVaults_vault_removed [OF chain Some True] continues_def
        using i by (simp add: nth_list_update)
    next
      case False
      let ?s' = "s\<lparr>noOnChainHrvst :=
                   (if switch_due deny c v s then Some (\<not> onChainHarvest deny c v)
                    else noOnChainHrvst s),
                 s_lastHarvest := max (s_lastHarvest s) (v_lastHarvest v)\<rparr>"
      have "continues V (stratsToHarvest st) ((stratsToHarvest st)[i := Some ?s'])"
        unfolding continues_def
      proof (intro conjI allI impI)
        fix j e'
        assume j: "j < length (stratsToHarvest st)"
          and e': "(stratsToHarvest st)[i := Some ?s'] ! j = Some e'"
        show "\<exists>e. stratsToHarvest st ! j = Some e \<and> s_chain e' = s_chain e \<and>
                s_id e' = s_id e \<and> s_strategy e' = s_strategy e \<and>
                (s_lastHarvest e' = s_lastHarvest e \<or>
                 (\<exists>v\<in>V. v_strategy v = s_strategy e \<and> v_id v = s_id e \<and>
                       s_lastHarvest e' = v_lastHarvest v \<and>
                       s_lastHarvest e < v_lastHarvest v))"
        proof (cases "j = i")
          case True
          with e' i have "e' = ?s'" by simp
          then have "s_chain e' = s_chain s" "s_id e' = s_id s" "s_strategy e' = s_strategy s"
            "s_lastHarvest e' = max (s_lastHarvest s) (v_lastHarvest v)"
            by simp_all
          moreover have "max (s_lastHarvest s) (v_lastHarvest v) = s_lastHarvest s \<or>
              (max (s_lastHarvest s) (v_lastHarvest v) = v_lastHarvest v \<and>
               s_lastHarvest s < v_lastHarvest v)"
            by (cases "s_lastHarvest s < v_lastHarvest v") (simp_all add: max_def)
          ultimately show ?thesis using s True assms k by auto
        next
          case False
          with e' show ?thesis by simp
        qed
      qed simp
      then show ?thesis
        by (simp add: SyncVaults_vault_found [OF chain Some False s])
    qed
  qed
qed

lemma continues_fold:
  "set ws \<subseteq> V \<Longrightarrow>
   continues V (stratsToHarvest st) (stratsToHarvest (fold (SyncVaults_vault deny c) ws st))"
proof (induction ws arbitrary: st)
  case Nil
  show ?case by (simp add: continues_refl)
next
  case (Cons w ws)
  then have "continues V (stratsToHarvest st) (stratsToHarvest (SyncVaults_vault deny c w st))"
    by (simp add: continues_vault)
  moreover have "continues V (stratsToHarvest (SyncVaults_vault deny c w st))
     (stratsToHarvest (fold (SyncVaults_vault deny c) ws (SyncVaults_vault deny c w st)))"
    using Cons by simp
  ultimately have "continues V (stratsToHarvest st)
     (stratsToHarvest (fold (SyncVaults_vault deny c) ws (SyncVaults_vault deny c w st)))"
    by (rule continues_trans)
  then show ?case by simp
qed

lemma stratsToHarvest_chain_task:
  "stratsToHarvest (chain_task deny est vs c st) =
     stratsToHarvest (fold (SyncVaults_vault deny c) vs
        (st\<lparr>added := 0, removed := 0, notOnChainHarvest := [], dirty := False\<rparr>))"
  by (simp add: chain_task_def SyncVaults_def ChainStratManager_def Let_def)

lemma continues_chain_task:
  "continues (set vs) (stratsToHarvest st) (stratsToHarvest (chain_task deny est vs c st))"
  using continues_fold [of vs "set vs"
      "st\<lparr>added := 0, removed := 0, notOnChainHarvest := [], dirty := False\<rparr>" deny c]
  by (simp add: stratsToHarvest_chain_task)

lemma continues_chains:
  "continues (set vs) (stratsToHarvest st) (stratsToHarvest (fold (chain_task deny est vs) chs st))"
proof (induction chs arbitrary: st)
  case Nil
  show ?case by (simp add: continues_refl)
next
  case (Cons c chs)
  from continues_trans [OF continues_chain_task Cons.IH]
  show ?case by simp
qed

lemma continues_sweep: "continues V xs (fst (sweep enc xs hs))"
  by (auto simp: continues_def sweep_fst split: option.splits if_splits)

lemma stratsToHarvest_reconcile:
  "stratsToHarvest (reconcile deny est chs vs strats) =
     fst (sweep (encountered (fold (chain_task deny est vs) chs (initial strats)))
            (stratsToHarvest (fold (chain_task deny est vs) chs (initial strats)))
            (hits (fold (chain_task deny est vs) chs (initial strats))))"
  by (simp add: reconcile_def Let_def split: prod.splits)

lemma continues_reconcile:
  "continues (set vs) (map Some strats) (stratsToHarvest (reconcile deny est chs vs strats))"
proof -
  have "continues (set vs) (stratsToHarvest (initial strats))
          (stratsToHarvest (fold (chain_task deny est vs) chs (initial strats)))"
    by (rule continues_chains)
  then have "continues (set vs) (map Some strats)
          (stratsToHarvest (fold (chain_task deny est vs) chs (initial strats)))"
    by (simp add: initial_def)
  from continues_trans [OF this continues_sweep]
  show ?thesis by (simp add: stratsToHarvest_reconcile)
qed

text \<open>
  What holds slot by slot: an entry of the stored list that is still in its slot after
  the run has the chain and the id it had, and a \<open>lastHarvest\<close> that is the old one or
  that of a vault of the catalog with its strategy and id which is strictly greater.
\<close>

lemma lastHarvest_in_slot:
  assumes "i < length strats"
    and "stratsToHarvest (reconcile deny est chs vs strats) ! i = Some e'"
  shows "s_chain e' = s_chain (strats ! i) \<and> s_id e' = s_id (strats ! i) \<and>
         s_lastHarvest (strats ! i) \<le> s_lastHarvest e' \<and>
         (s_lastHarvest e' = s_lastHarvest (strats ! i) \<or>
          (\<exists>v\<in>set vs. v_strategy v = s_strategy (strats ! i) \<and> v_id v = s_id (strats ! i) \<and>
                s_lastHarvest e' = v_lastHarvest v \<and>
                s_lastHarvest (strats ! i) < v_lastHarvest v))"
proof -
  from assms(1) have i: "i < length (map Some strats)" by simp
  from continues_reconcile [of vs strats deny est chs] i assms(2)
  obtain e where e: "map Some strats ! i = Some e" and
    same: "s_chain e' = s_chain e" "s_id e' = s_id e" and
    l: "s_lastHarvest e' = s_lastHarvest e \<or>
        (\<exists>v\<in>set vs. v_strategy v = s_strategy e \<and> v_id v = s_id e \<and>
              s_lastHarvest e' = v_lastHarvest v \<and> s_lastHarvest e < v_lastHarvest v)"
    unfolding continues_def by blast
  from e assms(1) have "e = strats ! i" by simp
  with same l show ?thesis by auto
qed

text \<open>
  C7: the run on the stored list \<open>[strat_v1]\<close> and the catalog \<open>[vault_v1_behind]\<close>
  (same chain and id, another strategy, an older \<open>lastHarvest\<close>) saves, beside
  \<open>strat_v1\<close>, a second entry with the chain and id of \<open>strat_v1\<close> whose \<open>lastHarvest\<close>
  is smaller than the one stored before the run.
\<close>

theorem lastHarvest_lower_after_migration:
  "persisted (Some [strat_v1])
     (main deny_none est_none chains_js (Response True True (Some [vault_v1_behind]))
        (require_file (Some [strat_v1])))
   = Some [strat_v1, new_strat vault_v1_behind] \<and>
   s_chain (new_strat vault_v1_behind) = s_chain strat_v1 \<and>
   s_id (new_strat vault_v1_behind) = s_id strat_v1 \<and>
   s_lastHarvest (new_strat vault_v1_behind) < s_lastHarvest strat_v1"
  by code_simp

section \<open>The encountered set\<close>

lemma encountered_vault:
  "encountered (SyncVaults_vault deny c v st) =
     encountered st \<union> (if c_id c = v_chain v \<and> \<not> inactive v then {v_id v} else {})"
proof (cases "c_id c = v_chain v")
  case False
  then show ?thesis by (simp add: SyncVaults_vault_skip)
next
  case chain: True
  show ?thesis
  proof (cases "findIndex (matches v) (stratsToHarvest st)")
    case None
    then show ?thesis
      using chain
      by (cases "inactive v") (simp_all add: SyncVaults_vault_dormant SyncVaults_vault_new)
  next
    case (Some i)
    from findIndex_matches [OF Some] obtain s where
      s: "stratsToHarvest st ! i = Some s" by auto
    show ?thesis
      using chain
      by (cases "inactive v")
        (simp_all add: SyncVaults_vault_removed [OF chain Some]
          SyncVaults_vault_found [OF chain Some _ s])
  qed
qed

lemma encountered_fold:
  "encountered (fold (SyncVaults_vault deny c) vs st) =
     encountered st \<union> v_id ` {v \<in> set vs. c_id c = v_chain v \<and> \<not> inactive v}"
  by (induction vs arbitrary: st) (auto simp: encountered_vault)

lemma encountered_chain_task:
  "encountered (chain_task deny est vs c st) =
     encountered st \<union> v_id ` {v \<in> set vs. c_id c = v_chain v \<and> \<not> inactive v}"
  by (simp add: chain_task_def SyncVaults_def ChainStratManager_def Let_def encountered_fold)

lemma encountered_chains:
  "encountered (fold (chain_task deny est vs) chs st) =
     encountered st \<union> v_id ` {v \<in> set vs. v_chain v \<in> c_id ` set chs \<and> \<not> inactive v}"
  by (induction chs arbitrary: st) (auto simp: encountered_chain_task)

text \<open>
  C3, as the code has it: after the passes of all chains the encountered set is the set
  of the ids of the vaults of the catalog that are not inactive and whose chain is the
  id of a configured chain.
\<close>

theorem encountered_after_run:
  "encountered (reconcile deny est chs vs strats) =
     v_id ` {v \<in> set vs. v_chain v \<in> c_id ` set chs \<and> \<not> inactive v}"
  by (simp add: reconcile_def Let_def encountered_chains initial_def split: prod.splits)

text \<open>
  C3 as stated fails for an active vault on \<open>aurora\<close>, which \<open>data/chains.js\<close> does
  not configure: no manager takes the vault, and its id is not encountered.
\<close>

theorem encountered_misses_unconfigured_chain:
  "vault_a1 \<in> set [vault_a1] \<and> \<not> inactive vault_a1 \<and>
   v_id vault_a1 \<notin> encountered (reconcile deny_none est_none chains_js [vault_a1] [])"
  by code_simp

section \<open>Vaults on the deny-list\<close>

lemma findIndex_cong: "map P xs = map P ys \<Longrightarrow> findIndex P xs = findIndex P ys"
proof (induction xs arbitrary: ys)
  case Nil
  then show ?case by simp
next
  case (Cons x xs)
  then obtain y ys' where ys: "ys = y # ys'" by (cases ys) auto
  with Cons.prems have "P x = P y" "map P xs = map P ys'" by auto
  with Cons.IH [of ys'] show ?case by (simp add: ys)
qed

lemma findIndex_update:
  assumes "P y = P (xs ! j)"
  shows "findIndex P (xs[j := y]) = findIndex P xs"
proof (cases "j < length xs")
  case True
  have "map P (xs[j := y]) = (map P xs)[j := P (xs ! j)]"
    using assms by (simp add: map_update)
  also have "\<dots> = map P xs"
    using True by (metis list_update_id nth_map)
  finally show ?thesis by (rule findIndex_cong)
next
  case False
  then show ?thesis by (simp add: list_update_beyond)
qed

lemma findIndex_append_Some:
  "findIndex P xs = Some i \<Longrightarrow> findIndex P (xs @ ys) = Some i"
  by (induction xs arbitrary: i) (auto split: if_splits)

lemma findIndex_append_None:
  "findIndex P xs = None \<Longrightarrow> P y \<Longrightarrow> findIndex P (xs @ [y]) = Some (length xs)"
  by (induction xs) (auto split: if_splits)

lemma findIndex_less: "findIndex P xs = Some i \<Longrightarrow> i < length xs \<and> P (xs ! i)"
  by (induction xs arbitrary: i) (auto split: if_splits)

lemma flagged_iff:
  "flagged v xs =
     (\<exists>i s. findIndex (matches v) xs = Some i \<and> xs ! i = Some s \<and> noOnChainHrvst s = Some True)"
  by (auto simp: flagged_def split: option.splits)

lemma flagged_established:
  assumes "c_id c = v_chain v" "hasOnChainHarvesting c" "\<not> inactive v"
    "v_earnedToken v \<in> deny (c_id c)"
  shows "flagged v (stratsToHarvest (SyncVaults_vault deny c v st))"
proof -
  have och: "\<not> onChainHarvest deny c v"
    using assms by (simp add: onChainHarvest_def denyOnChainHarvest_def)
  show ?thesis
  proof (cases "findIndex (matches v) (stratsToHarvest st)")
    case None
    let ?n = "(new_strat v)\<lparr>noOnChainHrvst := Some True\<rparr>"
    have "matches v (Some ?n)" by (simp add: matches_def new_strat_def)
    from findIndex_append_None [OF None this]
    show ?thesis
      using och assms
      by (simp add: SyncVaults_vault_new [OF assms(1) None assms(3)] flagged_iff)
  next
    case (Some i)
    from findIndex_matches [OF Some] obtain s where
      s: "stratsToHarvest st ! i = Some s" and i: "i < length (stratsToHarvest st)" and
      k: "v_strategy v = s_strategy s" "v_id v = s_id s"
      by auto
    let ?s' = "s\<lparr>noOnChainHrvst :=
                   (if switch_due deny c v s then Some (\<not> onChainHarvest deny c v)
                    else noOnChainHrvst s),
                 s_lastHarvest := max (s_lastHarvest s) (v_lastHarvest v)\<rparr>"
    have "matches v (Some ?s') = matches v (stratsToHarvest st ! i)"
      using s k by (simp add: matches_def)
    from findIndex_update [of "matches v", OF this]
    have f: "findIndex (matches v) ((stratsToHarvest st)[i := Some ?s']) = Some i"
      using Some by simp
    have "noOnChainHrvst ?s' = Some True"
      using och assms(2) by (auto simp: switch_due_def truthy_def)
    with f i show ?thesis
      unfolding SyncVaults_vault_found [OF assms(1) Some assms(3) s] flagged_iff
      by simp
  qed
qed

lemma flagged_kept_other:
  assumes fl: "flagged v (stratsToHarvest st)"
    and other: "\<not> (v_strategy w = v_strategy v \<and> v_id w = v_id v)"
  shows "flagged v (stratsToHarvest (SyncVaults_vault deny c w st))"
proof -
  from fl obtain i s where
    fi: "findIndex (matches v) (stratsToHarvest st) = Some i" and
    s: "stratsToHarvest st ! i = Some s" and t: "noOnChainHrvst s = Some True"
    unfolding flagged_iff by blast
  from findIndex_matches [OF fi] s have ks: "v_strategy v = s_strategy s" "v_id v = s_id s"
    by auto
  show ?thesis
  proof (cases "c_id c = v_chain w")
    case False
    with fl show ?thesis by (simp add: SyncVaults_vault_skip)
  next
    case chain: True
    show ?thesis
    proof (cases "findIndex (matches w) (stratsToHarvest st)")
      case None
      show ?thesis
      proof (cases "inactive w")
        case True
        with fl None show ?thesis by (simp add: SyncVaults_vault_dormant)
      next
        case False
        from findIndex_less [OF fi] have "i < length (stratsToHarvest st)" by simp
        with findIndex_append_Some [OF fi] s t show ?thesis
          unfolding SyncVaults_vault_new [OF chain None False] flagged_iff
          by (simp add: nth_append)
      qed
    next
      case (Some j)
      from findIndex_matches [OF Some] obtain sj where
        sj: "stratsToHarvest st ! j = Some sj" and j: "j < length (stratsToHarvest st)" and
        kj: "v_strategy w = s_strategy sj" "v_id w = s_id sj"
        by auto
      have ji: "j \<noteq> i" using s sj ks kj other by auto
      have nm: "\<not> matches v (stratsToHarvest st ! j)"
        using sj kj other by (auto simp: matches_def)
      show ?thesis
      proof (cases "inactive w")
        case True
        have "matches v None = matches v (stratsToHarvest st ! j)"
          using nm by (simp add: matches_def)
        from findIndex_update [of "matches v", OF this] fi s t ji show ?thesis
          unfolding SyncVaults_vault_removed [OF chain Some True] flagged_iff
          by simp
      next
        case False
        let ?s' = "sj\<lparr>noOnChainHrvst :=
                   (if switch_due deny c w sj then Some (\<not> onChainHarvest deny c w)
                    else noOnChainHrvst sj),
                 s_lastHarvest := max (s_lastHarvest sj) (v_lastHarvest w)\<rparr>"
        have "matches v (Some ?s') = matches v (stratsToHarvest st ! j)"
          using sj by (simp add: matches_def)
        from findIndex_update [of "matches v", OF this] fi s t ji show ?thesis
          unfolding SyncVaults_vault_found [OF chain Some False sj] flagged_iff
          by simp
      qed
    qed
  qed
qed

lemma flagged_kept_self:
  assumes fl: "flagged v (stratsToHarvest st)"
    and "\<not> inactive v" "v_earnedToken v \<in> deny (v_chain v)"
  shows "flagged v (stratsToHarvest (SyncVaults_vault deny c v st))"
proof (cases "c_id c = v_chain v")
  case False
  with fl show ?thesis by (simp add: SyncVaults_vault_skip)
next
  case chain: True
  from fl obtain i s where
    fi: "findIndex (matches v) (stratsToHarvest st) = Some i" and
    s: "stratsToHarvest st ! i = Some s" and t: "noOnChainHrvst s = Some True"
    unfolding flagged_iff by blast
  from findIndex_matches [OF fi] s have ks: "v_strategy v = s_strategy s" "v_id v = s_id s"
    and i: "i < length (stratsToHarvest st)"
    by auto
  have och: "\<not> onChainHarvest deny c v"
    using assms(3) chain by (simp add: onChainHarvest_def denyOnChainHarvest_def)
  then have due: "\<not> switch_due deny c v s"
    using t by (simp add: switch_due_def truthy_def)
  let ?s' = "s\<lparr>noOnChainHrvst := noOnChainHrvst s,
                 s_lastHarvest := max (s_lastHarvest s) (v_lastHarvest v)\<rparr>"
  have "matches v (Some ?s') = matches v (stratsToHarvest st ! i)"
    using s by (simp add: matches_def)
  from findIndex_update [of "matches v", OF this] fi s t i due show ?thesis
    unfolding SyncVaults_vault_found [OF chain fi assms(2) s] flagged_iff
    by simp
qed

lemma flagged_kept_fold:
  assumes "\<not> inactive v" "v_earnedToken v \<in> deny (v_chain v)"
  shows "flagged v (stratsToHarvest st) \<Longrightarrow>
    \<forall>w\<in>set ws. v_strategy w = v_strategy v \<and> v_id w = v_id v \<longrightarrow> w = v \<Longrightarrow>
    flagged v (stratsToHarvest (fold (SyncVaults_vault deny c) ws st))"
proof (induction ws arbitrary: st)
  case Nil
  then show ?case by simp
next
  case (Cons w ws)
  have "flagged v (stratsToHarvest (SyncVaults_vault deny c w st))"
  proof (cases "v_strategy w = v_strategy v \<and> v_id w = v_id v")
    case True
    with Cons.prems(2) have "w = v" by simp
    with flagged_kept_self [where deny = deny and v = v, OF Cons.prems(1) assms] show ?thesis by simp
  next
    case False
    from flagged_kept_other [OF Cons.prems(1) False] show ?thesis .
  qed
  with Cons.IH [of "SyncVaults_vault deny c w st"] Cons.prems(2) show ?case by simp
qed

lemma flagged_established_fold:
  assumes "c_id c = v_chain v" "hasOnChainHarvesting c" "\<not> inactive v"
    "v_earnedToken v \<in> deny (c_id c)"
  shows "v \<in> set ws \<Longrightarrow>
    \<forall>w\<in>set ws. v_strategy w = v_strategy v \<and> v_id w = v_id v \<longrightarrow> w = v \<Longrightarrow>
    flagged v (stratsToHarvest (fold (SyncVaults_vault deny c) ws st))"
proof (induction ws arbitrary: st)
  case Nil
  then show ?case by simp
next
  case (Cons w ws)
  have tok: "v_earnedToken v \<in> deny (v_chain v)" using assms by simp
  show ?case
  proof (cases "w = v")
    case True
    have "flagged v (stratsToHarvest (SyncVaults_vault deny c v st))"
      using assms by (rule flagged_established [where deny = deny])
    from flagged_kept_fold [where deny = deny and v = v, OF assms(3) tok this, of ws c] Cons.prems(2) True
    show ?thesis by simp
  next
    case False
    with Cons.prems have "v \<in> set ws" by simp
    from Cons.IH [OF this, of "SyncVaults_vault deny c w st"] Cons.prems(2)
    show ?thesis by simp
  qed
qed

lemma flagged_chains:
  assumes "c_id c = v_chain v" "hasOnChainHarvesting c" "\<not> inactive v"
    "v_earnedToken v \<in> deny (c_id c)" "v \<in> set vs"
    "\<forall>w\<in>set vs. v_strategy w = v_strategy v \<and> v_id w = v_id v \<longrightarrow> w = v"
  shows "(c \<in> set chs \<or> flagged v (stratsToHarvest st)) \<Longrightarrow>
    flagged v (stratsToHarvest (fold (chain_task deny est vs) chs st))"
proof (induction chs arbitrary: st)
  case Nil
  then show ?case by simp
next
  case (Cons c' chs)
  have tok: "v_earnedToken v \<in> deny (v_chain v)" using assms by simp
  let ?m = "st\<lparr>added := 0, removed := 0, notOnChainHarvest := [], dirty := False\<rparr>"
  have "c \<in> set chs \<or> flagged v (stratsToHarvest (chain_task deny est vs c' st))"
  proof (cases "flagged v (stratsToHarvest st)")
    case True
    then have "flagged v (stratsToHarvest ?m)" by simp
    from flagged_kept_fold [where deny = deny and v = v, OF assms(3) tok this assms(6), of c']
    show ?thesis by (simp add: stratsToHarvest_chain_task)
  next
    case False
    with Cons.prems have "c = c' \<or> c \<in> set chs" by auto
    then show ?thesis
    proof
      assume "c = c'"
      with flagged_established_fold [where deny = deny and v = v and c = c, OF assms(1-4) assms(5,6), of ?m]
      show ?thesis by (simp add: stratsToHarvest_chain_task)
    qed simp
  qed
  from Cons.IH [OF this] show ?case by simp
qed

lemma flagged_sweep:
  assumes "flagged v xs" "v_id v \<in> enc"
  shows "flagged v (fst (sweep enc xs hs))"
proof -
  let ?g = "\<lambda>x. case x of None \<Rightarrow> None | Some s \<Rightarrow> if s_id s \<in> enc then Some s else None"
  from assms(1) obtain i s where
    fi: "findIndex (matches v) xs = Some i" and s: "xs ! i = Some s" and
    t: "noOnChainHrvst s = Some True"
    unfolding flagged_iff by blast
  from findIndex_matches [OF fi] s have i: "i < length xs" and k: "v_id v = s_id s" by auto
  have "matches v (?g x) = matches v x" for x
    using assms(2) by (auto simp: matches_def split: option.splits)
  then have "map (matches v) (map ?g xs) = map (matches v) xs" by simp
  from findIndex_cong [OF this] fi have "findIndex (matches v) (map ?g xs) = Some i" by simp
  moreover have "map ?g xs ! i = Some s" using i s k assms(2) by simp
  ultimately show ?thesis using t by (auto simp: flagged_iff sweep_fst)
qed

text \<open>
  C4, as the code has it: let a vault of the catalog be active, on a configured chain
  that has on-chain harvesting, with its \<open>earnedToken\<close> on the deny-list of the chain,
  and let no other record of the catalog have its strategy and id. After the run the
  entry that the lookup of line 77 finds for the vault has \<open>noOnChainHrvst\<close> true.
\<close>

theorem denied_vault_flagged:
  assumes "v \<in> set vs" and "c \<in> set chs" and "c_id c = v_chain v"
    and "hasOnChainHarvesting c" and "\<not> inactive v"
    and "v_earnedToken v \<in> deny (c_id c)"
    and "\<forall>w\<in>set vs. v_strategy w = v_strategy v \<and> v_id w = v_id v \<longrightarrow> w = v"
  shows "\<exists>i s. findIndex (matches v) (stratsToHarvest (reconcile deny est chs vs strats)) = Some i \<and>
           stratsToHarvest (reconcile deny est chs vs strats) ! i = Some s \<and>
           noOnChainHrvst s = Some True"
proof -
  let ?mid = "fold (chain_task deny est vs) chs (initial strats)"
  from assms(2) have "c \<in> set chs \<or> flagged v (stratsToHarvest (initial strats))" by simp
  from flagged_chains [where deny = deny and v = v and c = c, OF assms(3-6) assms(1) assms(7) this]
  have f: "flagged v (stratsToHarvest ?mid)" .
  have "v \<in> {w \<in> set vs. v_chain w \<in> c_id ` set chs \<and> \<not> inactive w}"
    using assms(1,2,3,5) by (metis (mono_tags, lifting) image_eqI mem_Collect_eq)
  then have "v_id v \<in> encountered ?mid"
    unfolding encountered_chains by blast
  from flagged_sweep [OF f this] show ?thesis
    by (simp add: stratsToHarvest_reconcile flagged_iff)
qed

theorem denied_vault_flagged_witness:
  "vault_f1 \<in> set [vault_f1] \<and> fantom_on \<in> set [fantom_on] \<and>
   c_id fantom_on = v_chain vault_f1 \<and> hasOnChainHarvesting fantom_on \<and>
   \<not> inactive vault_f1 \<and> v_earnedToken vault_f1 \<in> deny_fantom (c_id fantom_on) \<and>
   noOnChainHrvst strat_f1 = Some False \<and>
   (\<exists>i s. findIndex (matches vault_f1)
            (stratsToHarvest (reconcile deny_fantom est_none [fantom_on] [vault_f1] [strat_f1]))
            = Some i \<and>
          stratsToHarvest (reconcile deny_fantom est_none [fantom_on] [vault_f1] [strat_f1]) ! i
            = Some s \<and>
          noOnChainHrvst s = Some True)"
proof -
  have h1: "vault_f1 \<in> set [vault_f1]" by simp
  have h2: "fantom_on \<in> set [fantom_on]" by simp
  have h3: "c_id fantom_on = v_chain vault_f1" by (simp add: fantom_on_def vault_f1_def)
  have h4: "hasOnChainHarvesting fantom_on" by (simp add: fantom_on_def)
  have h5: "\<not> inactive vault_f1" by (simp add: inactive_def vault_f1_def)
  have h6: "v_earnedToken vault_f1 \<in> deny_fantom (c_id fantom_on)"
    by (simp add: deny_fantom_def fantom_on_def vault_f1_def)
  have h7: "\<forall>w\<in>set [vault_f1].
      v_strategy w = v_strategy vault_f1 \<and> v_id w = v_id vault_f1 \<longrightarrow> w = vault_f1"
    by simp
  have h8: "noOnChainHrvst strat_f1 = Some False" by (simp add: strat_f1_def)
  from denied_vault_flagged [where deny = deny_fantom and v = vault_f1 and c = fantom_on,
      OF h1 h2 h3 h4 h5 h6 h7, of est_none "[strat_f1]"] h1 h2 h3 h4 h5 h6 h8
  show ?thesis by blast
qed

text \<open>
  C4 as stated fails for \<open>strat_f2\<close>: routing reads the \<open>earnedToken\<close> of the vault
  record, which is not on the deny-list, so the entry keeps \<open>noOnChainHrvst\<close> false
  although the \<open>earnedToken\<close> stored in the entry is on the deny-list of its chain.
\<close>

theorem denied_entry_not_flagged:
  "fantom_on \<in> set [fantom_on] \<and> hasOnChainHarvesting fantom_on \<and>
   stratsToHarvest (reconcile deny_fantom est_none [fantom_on] [vault_f2] [strat_f2])
     = [Some strat_f2] \<and>
   s_chain strat_f2 = c_id fantom_on \<and>
   s_earnedToken strat_f2 \<in> deny_fantom (c_id fantom_on) \<and>
   noOnChainHrvst strat_f2 = Some False"
  by code_simp

end
